theory Spec2Isabelle
  imports Main "HOL-Library.Word"
begin

section \<open>Data model\<close>

text \<open>
  Go's \<open>rune\<close> is \<open>int32\<close>: a 32-bit word, compared as two's complement
  (\<open>\<le>s\<close>), added with wrap-around. A Go string is read as the sequence of code points
  that \<open>for _, r := range content\<close> and \<open>[]rune(content)\<close> decode from it, and
  the string built by a \<open>strings.Builder\<close> as the sequence of code points written.
  Cursors (\<open>i\<close>, \<open>j\<close>, \<open>k\<close>) are \<open>nat\<close>: they start at 0, only grow, and
  never pass \<open>len(runes) + 1\<close>, so Go's 64-bit \<open>int\<close> cannot wrap on them.
\<close>

type_synonym rune = "32 word"

text \<open>The one way the source can fail: the runtime panic of \<open>runes[k]\<close> out of range.\<close>

datatype error = IndexOutOfRange

definition rune_at :: "rune list \<Rightarrow> nat \<Rightarrow> error + rune" where
  "rune_at runes k = (if k < length runes then Inr (runes ! k) else Inl IndexOutOfRange)"

text \<open>
  Modelled from the spec: \<open>ansi.DEL\<close> is a constant of the imported package
  \<open>github.com/charmbracelet/x/ansi\<close>, whose source is not part of the repository;
  the spec gives DEL as the code point 0x7F.
\<close>

definition DEL :: rune where
  "DEL = 0x7F"

text \<open>
  \<open>strings.Builder.WriteRune\<close> of Go's standard library, with \<open>utf8.ValidRune\<close>
  and \<open>utf8.RuneError\<close>: it appends the encoding of \<open>r\<close>, and that of U+FFFD when
  \<open>r\<close> is negative, a surrogate half or above U+10FFFF. It cannot fail.
  \<open>sb.Grow(len(content))\<close> reserves capacity and leaves the contents alone, so it
  has no counterpart here.
\<close>

definition RuneError :: rune where
  "RuneError = 0xFFFD"

definition ValidRune :: "rune \<Rightarrow> bool" where
  "ValidRune r = ((0 \<le>s r \<and> r <s 0xD800) \<or> (0xDFFF <s r \<and> r \<le>s 0x10FFFF))"

definition WriteRune :: "rune list \<Rightarrow> rune \<Rightarrow> rune list" where
  "WriteRune sb r = sb @ [if ValidRune r then r else RuneError]"

section \<open>Escape\<close>

text \<open>The \<open>range\<close> loop of \<open>Escape\<close>, the builder passed along.\<close>

fun Escape_range :: "rune list \<Rightarrow> rune list \<Rightarrow> rune list" where
  "Escape_range sb [] = sb"
| "Escape_range sb (r # content) =
     Escape_range
       (if 0 \<le>s r \<and> r \<le>s 0x1f then WriteRune sb (0x2400 + r)
        else if r = DEL then WriteRune sb 0x2421
        else WriteRune sb r)
       content"

definition Escape :: "rune list \<Rightarrow> rune list" where
  "Escape content = Escape_range [] content"

section \<open>EscapePreservingANSI\<close>

text \<open>\<open>for k := i; k <= j; k++ { sb.WriteRune(runes[k]) }\<close>\<close>

function write_seq :: "rune list \<Rightarrow> nat \<Rightarrow> nat \<Rightarrow> rune list \<Rightarrow> error + rune list" where
  "write_seq runes k j sb =
     (if k \<le> j then
        (case rune_at runes k of
           Inl e \<Rightarrow> Inl e
         | Inr r \<Rightarrow> write_seq runes (k + 1) j (WriteRune sb r))
      else Inr sb)"
  by pat_completeness auto
termination
  by (relation "measure (\<lambda>(runes, k, j, sb). j + 1 - k)") auto

text \<open>
  The inner loop \<open>for j < len(runes)\<close>, from \<open>j\<close> on. It returns the builder and the
  values of \<open>i\<close> and \<open>j\<close> at its exit: at a terminator letter the run is written,
  \<open>i = j + 1\<close> and \<open>j\<close> stays (\<open>break\<close>); at a digit, \<open>;\<close> or \<open>?\<close> the loop
  goes on with \<open>j + 1\<close>; at anything else it breaks with nothing written.
\<close>

function scan_seq :: "rune list \<Rightarrow> nat \<Rightarrow> nat \<Rightarrow> rune list \<Rightarrow> error + (rune list \<times> nat \<times> nat)" where
  "scan_seq runes i j sb =
     (if j < length runes then
        (case rune_at runes j of
           Inl e \<Rightarrow> Inl e
         | Inr c \<Rightarrow>
             if (0x41 \<le>s c \<and> c \<le>s 0x5A) \<or> (0x61 \<le>s c \<and> c \<le>s 0x7A) then
               (case write_seq runes i j sb of
                  Inl e \<Rightarrow> Inl e
                | Inr sb' \<Rightarrow> Inr (sb', j + 1, j))
             else if (0x30 \<le>s c \<and> c \<le>s 0x39) \<or> c = 0x3B \<or> c = 0x3F then
               scan_seq runes i (j + 1) sb
             else Inr (sb, i, j))
      else Inr (sb, i, j))"
  by pat_completeness auto
termination
  by (relation "measure (\<lambda>(runes, i, j, sb). length runes - j)") auto

text \<open>
  The test after the inner loop,
  \<open>j >= len(runes) || !((runes[j] >= 'A' && runes[j] <= 'Z') || (runes[j] >= 'a' && runes[j] <= 'z'))\<close>,
  with its short circuit.
\<close>

definition no_terminator :: "rune list \<Rightarrow> nat \<Rightarrow> error + bool" where
  "no_terminator runes j =
     (if j \<ge> length runes then Inr True
      else (case rune_at runes j of
              Inl e \<Rightarrow> Inl e
            | Inr c \<Rightarrow> Inr (\<not> ((0x41 \<le>s c \<and> c \<le>s 0x5A) \<or> (0x61 \<le>s c \<and> c \<le>s 0x7A)))))"

text \<open>
  The test that opens the body of the main loop,
  \<open>r == '\x1b' && i+1 < len(runes) && runes[i+1] == '['\<close>, with its short circuit.
\<close>

definition sequence_start :: "rune list \<Rightarrow> nat \<Rightarrow> rune \<Rightarrow> error + bool" where
  "sequence_start runes i r =
     (if r = 0x1b \<and> i + 1 < length runes then
        (case rune_at runes (i + 1) of
           Inl e \<Rightarrow> Inl e
         | Inr c \<Rightarrow> Inr (c = 0x5B))
      else Inr False)"

text \<open>
  One iteration of the main loop \<open>for i < len(runes)\<close>: the builder and the cursor
  after it.
\<close>

definition loop_body :: "rune list \<Rightarrow> nat \<Rightarrow> rune list \<Rightarrow> error + (rune list \<times> nat)" where
  "loop_body runes i sb =
     (case rune_at runes i of
        Inl e \<Rightarrow> Inl e
      | Inr r \<Rightarrow>
          (case sequence_start runes i r of
             Inl e \<Rightarrow> Inl e
           | Inr True \<Rightarrow>
               (case scan_seq runes i (i + 2) sb of
                  Inl e \<Rightarrow> Inl e
                | Inr (sb', i', j) \<Rightarrow>
                    (case no_terminator runes j of
                       Inl e \<Rightarrow> Inl e
                     | Inr True \<Rightarrow> Inr (WriteRune sb' 0x241B, i' + 1)
                     | Inr False \<Rightarrow> Inr (sb', i')))
           | Inr False \<Rightarrow>
               Inr (if 0 \<le>s r \<and> r \<le>s 0x1f then WriteRune sb (0x2400 + r)
                    else if r = DEL then WriteRune sb 0x2421
                    else WriteRune sb r,
                    i + 1)))"

text \<open>
  The recursive equations of the loops are unfolded by hand, one iteration at a time.
\<close>

declare write_seq.simps [simp del] scan_seq.simps [simp del]

text \<open>
  What the inner loop leaves behind: \<open>j\<close> never moves back, and either nothing was
  written, \<open>i\<close> is untouched and the test after the loop holds, or \<open>i\<close> is one
  past a terminator at \<open>j\<close> and the test fails. The main loop's termination rests
  on it.
\<close>

lemma scan_seq_exit:
  "scan_seq runes i j sb = Inr (sb', i', j') \<Longrightarrow>
   j \<le> j' \<and> ((i' = i \<and> sb' = sb \<and> no_terminator runes j' = Inr True)
           \<or> (i' = j' + 1 \<and> j' < length runes \<and> no_terminator runes j' = Inr False))"
proof (induction runes i j sb rule: scan_seq.induct)
  case (1 runes i j sb)
  show ?case
  proof (cases "j < length runes")
    case False
    with "1.prems" show ?thesis
      by (simp add: scan_seq.simps [of runes i j sb] no_terminator_def)
  next
    case True
    let ?c = "runes ! j"
    consider (letter) "(0x41 \<le>s ?c \<and> ?c \<le>s 0x5A) \<or> (0x61 \<le>s ?c \<and> ?c \<le>s 0x7A)"
      | (param) "\<not> ((0x41 \<le>s ?c \<and> ?c \<le>s 0x5A) \<or> (0x61 \<le>s ?c \<and> ?c \<le>s 0x7A))"
          "(0x30 \<le>s ?c \<and> ?c \<le>s 0x39) \<or> ?c = 0x3B \<or> ?c = 0x3F"
      | (other) "\<not> ((0x41 \<le>s ?c \<and> ?c \<le>s 0x5A) \<or> (0x61 \<le>s ?c \<and> ?c \<le>s 0x7A))"
          "\<not> ((0x30 \<le>s ?c \<and> ?c \<le>s 0x39) \<or> ?c = 0x3B \<or> ?c = 0x3F)"
      by blast
    then show ?thesis
    proof cases
      case letter
      with True "1.prems" show ?thesis
        by (auto simp: scan_seq.simps [of runes i j sb] rune_at_def no_terminator_def
            split: sum.splits)
    next
      case param
      with True "1.prems" have "scan_seq runes i (j + 1) sb = Inr (sb', i', j')"
        by (simp add: scan_seq.simps [of runes i j sb] rune_at_def)
      from "1.IH" [OF True _ _ param(2) this] param(1) True show ?thesis
        by (auto simp: rune_at_def)
    next
      case other
      with True "1.prems" show ?thesis
        by (auto simp: scan_seq.simps [of runes i j sb] rune_at_def no_terminator_def)
    qed
  qed
qed

lemma loop_body_advances:
  "loop_body runes i sb = Inr (sb', i') \<Longrightarrow> i < i'"
  by (auto simp: loop_body_def split: sum.splits bool.splits prod.splits dest!: scan_seq_exit)

function EscapePreservingANSI_loop :: "rune list \<Rightarrow> nat \<Rightarrow> rune list \<Rightarrow> error + rune list" where
  "EscapePreservingANSI_loop runes i sb =
     (if i < length runes then
        (case loop_body runes i sb of
           Inl e \<Rightarrow> Inl e
         | Inr (sb', i') \<Rightarrow> EscapePreservingANSI_loop runes i' sb')
      else Inr sb)"
  by pat_completeness auto
termination
  by (relation "measure (\<lambda>(runes, i, sb). length runes - i)")
     (auto dest: loop_body_advances)

definition EscapePreservingANSI :: "rune list \<Rightarrow> error + rune list" where
  "EscapePreservingANSI content = EscapePreservingANSI_loop content 0 []"

declare EscapePreservingANSI_loop.simps [simp del]

section \<open>The notions of the specification\<close>

text \<open>
  The spec's words, for the statements below. A C0 control character is a code point in
  0x00..0x1F; the Control Picture mapping (the Substituter) sends it to U+2400 plus its
  value, DEL to U+2421, and leaves every other code point alone.
\<close>

definition c0_control :: "rune \<Rightarrow> bool" where
  "c0_control c = (0 \<le>s c \<and> c \<le>s 0x1F)"

definition substitute :: "rune \<Rightarrow> rune" where
  "substitute c = (if c0_control c then 0x2400 + c else if c = 0x7F then 0x2421 else c)"

text \<open>
  A parameter is a digit, \<open>;\<close> or \<open>?\<close>; a terminator is a letter A-Z or a-z.
\<close>

definition parameter :: "rune \<Rightarrow> bool" where
  "parameter c = ((0x30 \<le>s c \<and> c \<le>s 0x39) \<or> c = 0x3B \<or> c = 0x3F)"

definition terminator :: "rune \<Rightarrow> bool" where
  "terminator c = ((0x41 \<le>s c \<and> c \<le>s 0x5A) \<or> (0x61 \<le>s c \<and> c \<le>s 0x7A))"

text \<open>The code point that \<open>WriteRune\<close> leaves in the output for \<open>r\<close>.\<close>

definition written :: "rune \<Rightarrow> rune" where
  "written r = (if ValidRune r then r else RuneError)"

text \<open>
  The well-formed CSI run at the head of a sequence, if there is one: ESC, \<open>[\<close>, the
  longest stretch of parameters, and a terminator right after it.
\<close>

fun csi_run :: "rune list \<Rightarrow> rune list option" where
  "csi_run (e # b # rs) =
     (if e = 0x1b \<and> b = 0x5B then
        (case dropWhile parameter rs of
           [] \<Rightarrow> None
         | t # _ \<Rightarrow> if terminator t then Some (e # b # takeWhile parameter rs @ [t]) else None)
      else None)"
| "csi_run _ = None"

text \<open>
  The scanner of section 4.2 as a function of the input still to read: a well-formed run
  at the head is copied and skipped, any other code point goes through the Substituter.
  (A lone or interrupted ESC is a C0 control, so the Substituter gives it U+241B.)
\<close>

fun ansi_scanner :: "rune list \<Rightarrow> rune list" where
  "ansi_scanner [] = []"
| "ansi_scanner (r # rs) =
     (case csi_run (r # rs) of
        Some run \<Rightarrow> run @ ansi_scanner (drop (length run - 1) rs)
      | None \<Rightarrow> written (substitute r) # ansi_scanner rs)"

section \<open>Helper lemmas\<close>

lemma write_seq_run:
  "j < length runes \<Longrightarrow> k \<le> j + 1 \<Longrightarrow>
   write_seq runes k j sb =
     Inr (sb @ map (\<lambda>r. if ValidRune r then r else RuneError) (take (j + 1 - k) (drop k runes)))"
proof (induction runes k j sb rule: write_seq.induct)
  case (1 runes k j sb)
  show ?case
  proof (cases "k \<le> j")
    case True
    with "1.prems" have kl: "k < length runes" by simp
    from True have "j + 1 - k = Suc (j - k)" by simp
    moreover have "drop k runes = runes ! k # drop (k + 1) runes"
      using kl by (simp add: Cons_nth_drop_Suc)
    moreover have "write_seq runes (k + 1) j (WriteRune sb (runes ! k)) =
        Inr (WriteRune sb (runes ! k)
             @ map (\<lambda>r. if ValidRune r then r else RuneError) (take (j + 1 - (k + 1)) (drop (k + 1) runes)))"
      using "1.IH" [OF True, of "runes ! k"] kl True "1.prems" by (simp add: rune_at_def)
    ultimately show ?thesis
      using True kl by (simp add: write_seq.simps [of runes k j sb] rune_at_def WriteRune_def)
  next
    case False
    with "1.prems" have "j + 1 - k = 0" by simp
    with False show ?thesis by (simp add: write_seq.simps [of runes k j sb])
  qed
qed

lemma sint_picture:
  "0 \<le> sint (r::rune) \<Longrightarrow> sint r \<le> 0x1F \<Longrightarrow> sint (0x2400 + r) = 0x2400 + sint r"
  by (simp add: sint_word_ariths signed_take_bit_int_eq_self)

lemma picture_range:
  "c0_control r \<Longrightarrow> 0x2400 \<le>s 0x2400 + r \<and> 0x2400 + r \<le>s 0x241F"
  by (simp add: c0_control_def word_sle_eq sint_picture)

lemma picture_valid: "c0_control r \<Longrightarrow> ValidRune (0x2400 + r)"
  by (simp add: c0_control_def ValidRune_def word_sle_eq word_sless_alt sint_picture)

lemma written_picture: "c0_control r \<Longrightarrow> written (0x2400 + r) = 0x2400 + r"
  by (simp add: written_def picture_valid)

lemma written_numerals [simp]:
  "written 0x2421 = 0x2421" "written 0x241B = 0x241B" "written 0x1b = 0x1b" "written 0x5B = 0x5B"
  by (simp_all add: written_def ValidRune_def word_sle_eq word_sless_alt)

lemma parameter_facts:
  assumes "parameter c"
  shows "\<not> terminator c" "\<not> c0_control c" "c \<noteq> 0x7F" "c \<noteq> 0x1b" "ValidRune c"
  using assms
  by (auto simp: parameter_def terminator_def c0_control_def ValidRune_def word_sle_eq word_sless_alt)

lemma terminator_facts:
  assumes "terminator c"
  shows "\<not> parameter c" "\<not> c0_control c" "c \<noteq> 0x7F" "c \<noteq> 0x1b" "ValidRune c"
  using assms
  by (auto simp: parameter_def terminator_def c0_control_def ValidRune_def word_sle_eq word_sless_alt)

lemma ESC_facts: "\<not> parameter 0x1b" "\<not> terminator 0x1b" "c0_control 0x1b"
    "\<not> parameter 0x5B" "\<not> terminator 0x5B" "\<not> c0_control 0x5B"
  by (simp_all add: parameter_def terminator_def c0_control_def word_sle_eq)

lemma substitute_ESC: "substitute 0x1b = 0x241B"
  by (simp add: substitute_def ESC_facts)

lemma picture_not_control:
  assumes "c0_control r" shows "\<not> c0_control (0x2400 + r)" "0x2400 + r \<noteq> 0x7F"
proof -
  from assms have le: "0x2400 \<le>s 0x2400 + r" by (simp add: picture_range)
  show "\<not> c0_control (0x2400 + r)"
    using le by (simp add: c0_control_def word_sle_eq)
  show "0x2400 + r \<noteq> 0x7F"
  proof
    assume "0x2400 + r = 0x7F"
    with le have "(0x2400::rune) \<le>s 0x7F" by simp
    then show False by (simp add: word_sle_eq)
  qed
qed

lemma scan_seq_unfold:
  "scan_seq runes i j sb =
     (if j < length runes then
        if terminator (runes ! j) then
          (case write_seq runes i j sb of
             Inl e \<Rightarrow> Inl e
           | Inr sb' \<Rightarrow> Inr (sb', j + 1, j))
        else if parameter (runes ! j) then scan_seq runes i (j + 1) sb
        else Inr (sb, i, j)
      else Inr (sb, i, j))"
  by (subst scan_seq.simps) (simp add: rune_at_def terminator_def parameter_def)

lemma scan_seq_end:
  "length runes \<le> j \<Longrightarrow> scan_seq runes i j sb = Inr (sb, i, j)"
  by (subst scan_seq_unfold) simp

lemma scan_seq_other:
  "j < length runes \<Longrightarrow> \<not> terminator (runes ! j) \<Longrightarrow> \<not> parameter (runes ! j) \<Longrightarrow>
   scan_seq runes i j sb = Inr (sb, i, j)"
  by (subst scan_seq_unfold) simp

lemma scan_seq_letter:
  assumes "j < length runes" "terminator (runes ! j)" "i \<le> j"
  shows "scan_seq runes i j sb = Inr (sb @ map written (take (j + 1 - i) (drop i runes)), j + 1, j)"
proof -
  have "write_seq runes i j sb = Inr (sb @ map written (take (j + 1 - i) (drop i runes)))"
    using write_seq_run [of j runes i sb] assms by (simp add: written_def [abs_def])
  then show ?thesis
    using assms by (subst scan_seq_unfold) simp
qed

lemma scan_seq_param:
  assumes "j < length runes" "parameter (runes ! j)"
  shows "scan_seq runes i j sb = scan_seq runes i (j + 1) sb"
  using assms by (subst scan_seq_unfold) (simp add: parameter_facts)

lemma scan_seq_skip:
  "list_all parameter ps \<Longrightarrow>
   scan_seq (pre @ ps @ rest) i (length pre) sb =
   scan_seq (pre @ ps @ rest) i (length pre + length ps) sb"
proof (induction ps arbitrary: pre)
  case Nil
  show ?case by simp
next
  case (Cons p ps)
  have "scan_seq (pre @ (p # ps) @ rest) i (length pre) sb =
        scan_seq (pre @ (p # ps) @ rest) i (length pre + 1) sb"
    using Cons.prems by (intro scan_seq_param) (simp_all add: nth_append)
  also have "\<dots> = scan_seq ((pre @ [p]) @ ps @ rest) i (length (pre @ [p])) sb"
    by simp
  also have "\<dots> = scan_seq ((pre @ [p]) @ ps @ rest) i (length (pre @ [p]) + length ps) sb"
    using Cons.prems by (intro Cons.IH) simp
  finally show ?case by simp
qed

lemma written_parameters: "list_all parameter ps \<Longrightarrow> map written ps = ps"
  by (induction ps) (simp_all add: written_def parameter_facts)

lemma written_terminator: "terminator t \<Longrightarrow> written t = t"
  by (simp add: written_def terminator_facts)

lemma ordinary_write:
  "(if 0 \<le>s r \<and> r \<le>s 0x1f then WriteRune sb (0x2400 + r)
    else if r = DEL then WriteRune sb 0x2421
    else WriteRune sb r) = sb @ [written (substitute r)]"
proof -
  have "written 0x2421 = 0x2421" by simp
  then show ?thesis
    by (simp add: WriteRune_def substitute_def DEL_def written_picture
        c0_control_def [symmetric] written_def [symmetric])
qed

lemma sequence_start_append:
  "sequence_start (pre @ r # rest) (length pre) r =
     Inr (r = 0x1b \<and> rest \<noteq> [] \<and> hd rest = 0x5B)"
  by (cases rest) (simp_all add: sequence_start_def rune_at_def nth_append)

lemma loop_body_ordinary:
  assumes "\<not> (r = 0x1b \<and> rest \<noteq> [] \<and> hd rest = 0x5B)"
  shows "loop_body (pre @ r # rest) (length pre) sb =
           Inr (sb @ [written (substitute r)], length pre + 1)"
proof -
  have "rune_at (pre @ r # rest) (length pre) = Inr r"
    by (simp add: rune_at_def)
  moreover have "sequence_start (pre @ r # rest) (length pre) r = Inr False"
    using assms by (simp add: sequence_start_append)
  ultimately show ?thesis
    by (simp add: loop_body_def ordinary_write)
qed

lemma take_run:
  "take (Suc (Suc (Suc (length ps)))) (a # b # ps @ t # rest) = a # b # ps @ [t]"
  by simp

lemma loop_body_run:
  assumes "list_all parameter ps" "terminator t"
  shows "loop_body (pre @ 0x1b # 0x5B # ps @ t # rest) (length pre) sb =
           Inr (sb @ 0x1b # 0x5B # ps @ [t], length pre + length ps + 3)"
proof -
  let ?runes = "pre @ 0x1b # 0x5B # ps @ t # rest"
  let ?j = "length pre + 2 + length ps"
  have runes: "?runes = (pre @ [0x1b, 0x5B]) @ ps @ (t # rest)" by simp
  have at: "?runes ! ?j = t"
    by (simp only: runes) (simp add: nth_append)
  have "scan_seq ?runes (length pre) (length pre + 2) sb = scan_seq ?runes (length pre) ?j sb"
    using scan_seq_skip [OF assms(1), of "pre @ [0x1b, 0x5B]" "t # rest" "length pre" sb]
    by simp
  also have "\<dots> = Inr (sb @ map written (take (?j + 1 - length pre) (drop (length pre) ?runes)), ?j + 1, ?j)"
    using assms(2) at by (intro scan_seq_letter) simp_all
  also have "map written (take (?j + 1 - length pre) (drop (length pre) ?runes)) = 0x1b # 0x5B # ps @ [t]"
  proof -
    have "drop (length pre) ?runes = 0x1b # 0x5B # ps @ t # rest" by simp
    moreover have "?j + 1 - length pre = Suc (Suc (Suc (length ps)))" by simp
    ultimately have "take (?j + 1 - length pre) (drop (length pre) ?runes) = 0x1b # 0x5B # ps @ [t]"
      by (simp only: take_run)
    then show ?thesis
      using assms by (simp add: written_parameters written_terminator)
  qed
  finally have scan: "scan_seq ?runes (length pre) (length pre + 2) sb =
      Inr (sb @ 0x1b # 0x5B # ps @ [t], ?j + 1, ?j)" .
  have "no_terminator ?runes ?j = Inr False"
    using assms(2) at by (simp add: no_terminator_def rune_at_def terminator_def)
  moreover have "rune_at ?runes (length pre) = Inr 0x1b"
    by (simp add: rune_at_def)
  moreover have "sequence_start ?runes (length pre) 0x1b = Inr True"
    using sequence_start_append [of pre "0x1b" "0x5B # ps @ t # rest"] by simp
  ultimately show ?thesis
    using scan by (simp add: loop_body_def)
qed

lemma loop_body_invalid:
  assumes "list_all parameter ps"
    and "rest = [] \<or> (\<not> terminator (hd rest) \<and> \<not> parameter (hd rest))"
  shows "loop_body (pre @ 0x1b # 0x5B # ps @ rest) (length pre) sb =
           Inr (sb @ [0x241B], length pre + 1)"
proof -
  let ?runes = "pre @ 0x1b # 0x5B # ps @ rest"
  let ?j = "length pre + 2 + length ps"
  have runes: "?runes = (pre @ [0x1b, 0x5B]) @ ps @ rest" by simp
  have skip: "scan_seq ?runes (length pre) (length pre + 2) sb = scan_seq ?runes (length pre) ?j sb"
    using scan_seq_skip [OF assms(1), of "pre @ [0x1b, 0x5B]" rest "length pre" sb]
    by simp
  have "scan_seq ?runes (length pre) ?j sb = Inr (sb, length pre, ?j)
      \<and> no_terminator ?runes ?j = Inr True"
  proof (cases rest)
    case Nil
    then show ?thesis by (simp add: scan_seq_end no_terminator_def)
  next
    case (Cons c cs)
    have at: "?runes ! ?j = c"
      by (simp only: runes) (simp add: nth_append Cons)
    have lt: "?j < length ?runes" by (simp add: Cons)
    from assms(2) Cons have c: "\<not> terminator c" "\<not> parameter c" by simp_all
    have "scan_seq ?runes (length pre) ?j sb = Inr (sb, length pre, ?j)"
      using lt at c by (intro scan_seq_other) simp_all
    moreover have "no_terminator ?runes ?j = Inr True"
      using c(1) at lt by (simp add: no_terminator_def rune_at_def terminator_def)
    ultimately show ?thesis by simp
  qed
  with skip have scan: "scan_seq ?runes (length pre) (length pre + 2) sb = Inr (sb, length pre, ?j)"
    and nt: "no_terminator ?runes ?j = Inr True" by simp_all
  have "rune_at ?runes (length pre) = Inr 0x1b"
    by (simp add: rune_at_def)
  moreover have "sequence_start ?runes (length pre) 0x1b = Inr True"
    using sequence_start_append [of pre "0x1b" "0x5B # ps @ rest"] by simp
  moreover have "WriteRune sb 0x241B = sb @ [0x241B]"
    using written_numerals(2) by (simp add: WriteRune_def written_def)
  ultimately show ?thesis
    using scan nt by (simp add: loop_body_def)
qed

lemma takeWhile_parameters:
  "list_all parameter ps \<Longrightarrow> rest = [] \<or> \<not> parameter (hd rest) \<Longrightarrow>
   takeWhile parameter (ps @ rest) = ps \<and> dropWhile parameter (ps @ rest) = rest"
  by (cases rest) (simp_all add: list_all_iff takeWhile_append2 dropWhile_append2)

lemma csi_run_wellformed:
  "list_all parameter ps \<Longrightarrow> terminator t \<Longrightarrow>
   csi_run (0x1b # 0x5B # ps @ t # rest) = Some (0x1b # 0x5B # ps @ [t])"
  using takeWhile_parameters [of ps "t # rest"] by (simp add: terminator_facts)

lemma csi_run_invalid:
  assumes "list_all parameter ps"
    and "rest = [] \<or> (\<not> terminator (hd rest) \<and> \<not> parameter (hd rest))"
  shows "csi_run (0x1b # 0x5B # ps @ rest) = None"
proof (cases rest)
  case Nil
  have dw: "dropWhile parameter ps = []"
    using assms(1) by (simp add: list_all_iff)
  show ?thesis by (simp add: Nil dw)
next
  case (Cons c cs)
  have dw: "dropWhile parameter (ps @ c # cs) = c # cs"
    using takeWhile_parameters [of ps "c # cs"] assms Cons by simp
  show ?thesis using assms(2) Cons by (simp add: dw)
qed

lemma csi_run_ordinary:
  "\<not> (r = 0x1b \<and> rest \<noteq> [] \<and> hd rest = 0x5B) \<Longrightarrow> csi_run (r # rest) = None"
  by (cases rest) auto

lemma csi_run_SomeD:
  assumes "csi_run xs = Some run"
  shows "\<exists>ps t rest. list_all parameter ps \<and> terminator t \<and>
           xs = 0x1b # 0x5B # ps @ t # rest \<and> run = 0x1b # 0x5B # ps @ [t]"
proof -
  have "\<exists>e b rs. xs = e # b # rs"
    using assms by (cases xs rule: csi_run.cases) auto
  then obtain e b rs where xs: "xs = e # b # rs" by blast
  with assms obtain t rest where dw: "dropWhile parameter rs = t # rest"
    and eb: "e = 0x1b" "b = 0x5B" and t: "terminator t"
    and run: "run = e # b # takeWhile parameter rs @ [t]"
    by (auto split: if_splits list.splits)
  have "rs = takeWhile parameter rs @ t # rest"
    using takeWhile_dropWhile_id [of parameter rs] dw by simp
  moreover have "list_all parameter (takeWhile parameter rs)"
    by (auto simp: list_all_iff dest: set_takeWhileD)
  ultimately show ?thesis
    using xs eb t run by blast
qed

lemma csi_run_NoneD:
  assumes "csi_run (r # rest) = None"
  shows "\<not> (r = 0x1b \<and> rest \<noteq> [] \<and> hd rest = 0x5B) \<or>
         (\<exists>ps rest'. list_all parameter ps \<and>
            (rest' = [] \<or> (\<not> terminator (hd rest') \<and> \<not> parameter (hd rest'))) \<and>
            r # rest = 0x1b # 0x5B # ps @ rest')"
proof (cases "r = 0x1b \<and> rest \<noteq> [] \<and> hd rest = 0x5B")
  case False
  then show ?thesis by simp
next
  case True
  then obtain rs where rest: "rest = 0x5B # rs" and r: "r = 0x1b"
    by (cases rest) auto
  let ?ps = "takeWhile parameter rs" and ?tl = "dropWhile parameter rs"
  have ps: "list_all parameter ?ps"
    by (auto simp: list_all_iff dest: set_takeWhileD)
  have "?tl = [] \<or> (\<not> terminator (hd ?tl) \<and> \<not> parameter (hd ?tl))"
  proof (cases ?tl)
    case Nil
    then show ?thesis by simp
  next
    case (Cons t ts)
    then have "\<not> parameter t"
      using hd_dropWhile [of parameter rs] by auto
    moreover have "\<not> terminator t"
      using assms Cons by (auto simp: rest r split: if_splits)
    ultimately show ?thesis using Cons by simp
  qed
  moreover have "r # rest = 0x1b # 0x5B # ?ps @ ?tl"
    by (simp add: r rest)
  ultimately show ?thesis using ps by blast
qed

lemma loop_body_step:
  assumes "i < length runes"
  shows "loop_body runes i sb =
     Inr (case csi_run (drop i runes) of
            Some run \<Rightarrow> (sb @ run, i + length run)
          | None \<Rightarrow> (sb @ [written (substitute (runes ! i))], i + 1))"
proof -
  let ?pre = "take i runes"
  have len: "length ?pre = i" using assms by simp
  have dr: "drop i runes = runes ! i # drop (Suc i) runes"
    using assms by (simp add: Cons_nth_drop_Suc)
  have split: "runes = ?pre @ drop i runes" by simp
  show ?thesis
  proof (cases "csi_run (drop i runes)")
    case (Some run)
    then obtain ps t rest where ps: "list_all parameter ps" "terminator t"
      and xs: "drop i runes = 0x1b # 0x5B # ps @ t # rest" and run: "run = 0x1b # 0x5B # ps @ [t]"
      using csi_run_SomeD by blast
    have "loop_body (?pre @ 0x1b # 0x5B # ps @ t # rest) (length ?pre) sb =
        Inr (sb @ 0x1b # 0x5B # ps @ [t], length ?pre + length ps + 3)"
      using ps by (rule loop_body_run)
    then have "loop_body runes i sb = Inr (sb @ run, i + length run)"
      using split xs run len by simp
    with Some show ?thesis by simp
  next
    case None
    from None dr have c: "csi_run (runes ! i # drop (Suc i) runes) = None" by simp
    have "loop_body runes i sb = Inr (sb @ [written (substitute (runes ! i))], i + 1)"
      using csi_run_NoneD [OF c]
    proof
      assume "\<not> (runes ! i = 0x1b \<and> drop (Suc i) runes \<noteq> [] \<and> hd (drop (Suc i) runes) = 0x5B)"
      then have "loop_body (?pre @ runes ! i # drop (Suc i) runes) (length ?pre) sb =
          Inr (sb @ [written (substitute (runes ! i))], length ?pre + 1)"
        by (rule loop_body_ordinary)
      then show ?thesis using split dr len by simp
    next
      assume "\<exists>ps rest'. list_all parameter ps \<and>
            (rest' = [] \<or> (\<not> terminator (hd rest') \<and> \<not> parameter (hd rest'))) \<and>
            runes ! i # drop (Suc i) runes = 0x1b # 0x5B # ps @ rest'"
      then obtain ps rest' where ps: "list_all parameter ps"
        and r: "rest' = [] \<or> (\<not> terminator (hd rest') \<and> \<not> parameter (hd rest'))"
        and xs: "runes ! i # drop (Suc i) runes = 0x1b # 0x5B # ps @ rest'"
        by blast
      have "loop_body (?pre @ 0x1b # 0x5B # ps @ rest') (length ?pre) sb =
          Inr (sb @ [0x241B], length ?pre + 1)"
        using ps r by (rule loop_body_invalid)
      moreover have "runes ! i = 0x1b" using xs by simp
      ultimately show ?thesis
        using split dr xs len by (simp add: substitute_ESC)
    qed
    with None show ?thesis by simp
  qed
qed

lemma ansi_scanner_None:
  "csi_run (r # rs) = None \<Longrightarrow> ansi_scanner (r # rs) = written (substitute r) # ansi_scanner rs"
  by simp

lemma ansi_scanner_Some:
  "csi_run (r # rs) = Some run \<Longrightarrow>
   ansi_scanner (r # rs) = run @ ansi_scanner (drop (length run - 1) rs)"
  by simp

declare ansi_scanner.simps(2) [simp del]

lemma csi_run_length:
  assumes "csi_run (r # rs) = Some run"
  shows "3 \<le> length run" "length run - 1 \<le> length rs" "take (length run) (r # rs) = run"
proof -
  from csi_run_SomeD [OF assms] obtain ps t rest where
    xs: "r # rs = 0x1b # 0x5B # ps @ t # rest" and run: "run = 0x1b # 0x5B # ps @ [t]"
    by blast
  show "3 \<le> length run" by (simp add: run)
  show "length run - 1 \<le> length rs" using xs by (simp add: run)
  have "length run = Suc (Suc (Suc (length ps)))" by (simp add: run)
  then show "take (length run) (r # rs) = run"
    by (simp only: xs take_run run)
qed

lemma loop_scanner:
  "i \<le> length runes \<Longrightarrow>
   EscapePreservingANSI_loop runes i sb = Inr (sb @ ansi_scanner (drop i runes))"
proof (induction runes i sb rule: EscapePreservingANSI_loop.induct)
  case (1 runes i sb)
  show ?case
  proof (cases "i < length runes")
    case False
    then show ?thesis
      by (subst EscapePreservingANSI_loop.simps) simp
  next
    case True
    have dr: "drop i runes = runes ! i # drop (Suc i) runes"
      using True by (simp add: Cons_nth_drop_Suc)
    show ?thesis
    proof (cases "csi_run (drop i runes)")
      case None
      then have body: "loop_body runes i sb = Inr (sb @ [written (substitute (runes ! i))], i + 1)"
        using loop_body_step [OF True, of sb] by simp
      have "EscapePreservingANSI_loop runes (i + 1) (sb @ [written (substitute (runes ! i))]) =
          Inr ((sb @ [written (substitute (runes ! i))]) @ ansi_scanner (drop (i + 1) runes))"
        using True by (intro "1.IH" [OF True body]) simp_all
      moreover have "ansi_scanner (drop i runes) =
          written (substitute (runes ! i)) # ansi_scanner (drop (i + 1) runes)"
        using None by (simp add: dr ansi_scanner_None)
      ultimately show ?thesis
        using True body by (subst EscapePreservingANSI_loop.simps) simp
    next
      case (Some run)
      then have body: "loop_body runes i sb = Inr (sb @ run, i + length run)"
        using loop_body_step [OF True, of sb] by simp
      from Some dr have c: "csi_run (runes ! i # drop (Suc i) runes) = Some run" by simp
      have le: "i + length run \<le> length runes"
        using csi_run_length(2) [OF c] True by simp
      have "EscapePreservingANSI_loop runes (i + length run) (sb @ run) =
          Inr ((sb @ run) @ ansi_scanner (drop (i + length run) runes))"
        using le by (intro "1.IH" [OF True body]) simp_all
      moreover have "drop (length run - 1) (drop (Suc i) runes) = drop (i + length run) runes"
      proof -
        have "length run - 1 + Suc i = i + length run"
          using csi_run_length(1) [OF c] by simp
        then show ?thesis by (simp only: drop_drop)
      qed
      then have "ansi_scanner (drop i runes) = run @ ansi_scanner (drop (i + length run) runes)"
        using c by (simp add: dr ansi_scanner_Some)
      ultimately show ?thesis
        using True body by (subst EscapePreservingANSI_loop.simps) simp
    qed
  qed
qed

lemma EscapePreservingANSI_scanner:
  "EscapePreservingANSI content = Inr (ansi_scanner content)"
  by (simp add: EscapePreservingANSI_def loop_scanner)

lemma Escape_range_map:
  "Escape_range sb content = sb @ map (\<lambda>r. written (substitute r)) content"
  by (induction content arbitrary: sb) (simp_all add: ordinary_write)

lemma Escape_map: "Escape content = map (\<lambda>r. written (substitute r)) content"
  by (simp add: Escape_def Escape_range_map)

lemma ansi_scanner_length: "length (ansi_scanner xs) = length xs"
proof (induction xs rule: ansi_scanner.induct)
  case 1
  show ?case by simp
next
  case (2 r rs)
  show ?case
  proof (cases "csi_run (r # rs)")
    case None
    with 2 show ?thesis by (simp add: ansi_scanner_None)
  next
    case (Some run)
    with 2 have "length (ansi_scanner (drop (length run - 1) rs)) = length rs - (length run - 1)"
      by simp
    with Some csi_run_length(1,2) [OF Some] show ?thesis
      by (simp add: ansi_scanner_Some)
  qed
qed

lemma csi_run_append:
  assumes "csi_run xs = Some run"
  shows "csi_run (xs @ ys) = Some run"
proof -
  from csi_run_SomeD [OF assms] obtain ps t rest where ps: "list_all parameter ps" "terminator t"
    and xs: "xs = 0x1b # 0x5B # ps @ t # rest" and run: "run = 0x1b # 0x5B # ps @ [t]"
    by blast
  have "csi_run (0x1b # 0x5B # ps @ t # (rest @ ys)) = Some (0x1b # 0x5B # ps @ [t])"
    using ps by (rule csi_run_wellformed)
  then show ?thesis by (simp add: xs run)
qed

lemma csi_run_None_append_ESC:
  assumes "csi_run (r # rs) = None"
  shows "csi_run (r # rs @ 0x1b # ys) = None"
  using csi_run_NoneD [OF assms]
proof
  assume "\<not> (r = 0x1b \<and> rs \<noteq> [] \<and> hd rs = 0x5B)"
  then have "\<not> (r = 0x1b \<and> rs @ 0x1b # ys \<noteq> [] \<and> hd (rs @ 0x1b # ys) = 0x5B)"
    by (cases rs) auto
  then show ?thesis by (rule csi_run_ordinary)
next
  assume "\<exists>ps rest'. list_all parameter ps \<and>
            (rest' = [] \<or> (\<not> terminator (hd rest') \<and> \<not> parameter (hd rest'))) \<and>
            r # rs = 0x1b # 0x5B # ps @ rest'"
  then obtain ps rest' where ps: "list_all parameter ps"
    and r: "rest' = [] \<or> (\<not> terminator (hd rest') \<and> \<not> parameter (hd rest'))"
    and xs: "r # rs = 0x1b # 0x5B # ps @ rest'"
    by blast
  let ?rest = "rest' @ 0x1b # ys"
  have "?rest = [] \<or> (\<not> terminator (hd ?rest) \<and> \<not> parameter (hd ?rest))"
    using r by (cases rest') (simp_all add: ESC_facts)
  with ps have "csi_run (0x1b # 0x5B # ps @ ?rest) = None"
    by (rule csi_run_invalid)
  moreover have "r # rs @ 0x1b # ys = 0x1b # 0x5B # ps @ ?rest"
    using xs by simp
  ultimately show ?thesis by simp
qed

lemma ansi_scanner_append_ESC:
  "ansi_scanner (pre @ 0x1b # ys) = ansi_scanner pre @ ansi_scanner (0x1b # ys)"
proof (induction pre rule: ansi_scanner.induct)
  case 1
  show ?case by simp
next
  case (2 r rs)
  show ?case
  proof (cases "csi_run (r # rs)")
    case None
    then have "csi_run (r # rs @ 0x1b # ys) = None" by (rule csi_run_None_append_ESC)
    with None "2.IH" show ?thesis by (simp add: ansi_scanner_None)
  next
    case (Some run)
    then have "csi_run ((r # rs) @ 0x1b # ys) = Some run" by (rule csi_run_append)
    moreover have "drop (length run - 1) (rs @ 0x1b # ys) = drop (length run - 1) rs @ 0x1b # ys"
      using csi_run_length(2) [OF Some] by simp
    ultimately show ?thesis
      using Some "2.IH" by (simp add: ansi_scanner_Some)
  qed
qed

lemma ansi_scanner_run:
  assumes "list_all parameter ps" "terminator t"
  shows "ansi_scanner (0x1b # 0x5B # ps @ t # rest) = 0x1b # 0x5B # ps @ t # ansi_scanner rest"
proof -
  have "csi_run (0x1b # 0x5B # ps @ t # rest) = Some (0x1b # 0x5B # ps @ [t])"
    using assms by (rule csi_run_wellformed)
  then show ?thesis by (simp add: ansi_scanner_Some)
qed

lemma plain_passes:
  assumes "c \<noteq> 0x1b" "\<not> c0_control c" "c \<noteq> 0x7F" "ValidRune c"
  shows "ansi_scanner (c # rest) = c # ansi_scanner rest"
proof -
  have "csi_run (c # rest) = None"
    using assms(1) by (intro csi_run_ordinary) simp
  then show ?thesis
    using assms by (simp add: ansi_scanner_None substitute_def written_def)
qed

lemma ansi_scanner_parameters:
  "list_all parameter ps \<Longrightarrow> ansi_scanner (ps @ rest) = ps @ ansi_scanner rest"
  by (induction ps) (simp_all add: plain_passes parameter_facts)

lemma ansi_scanner_ESC:
  assumes "csi_run (0x1b # rest) = None"
  shows "ansi_scanner (0x1b # rest) = 0x241B # ansi_scanner rest"
  using assms by (simp add: ansi_scanner_None substitute_ESC)

lemma ansi_scanner_no_ESC:
  "list_all (\<lambda>c. c \<noteq> 0x1b) s \<Longrightarrow> ansi_scanner s = map (\<lambda>r. written (substitute r)) s"
proof (induction s)
  case Nil
  show ?case by simp
next
  case (Cons c s)
  then have "csi_run (c # s) = None"
    by (intro csi_run_ordinary) simp
  with Cons show ?case by (simp add: ansi_scanner_None)
qed

lemma written_substitute_not_control:
  "\<not> c0_control (written (substitute c)) \<and> written (substitute c) \<noteq> 0x7F"
proof (cases "c0_control c")
  case True
  then show ?thesis
    by (simp add: substitute_def written_picture picture_not_control)
next
  case False
  show ?thesis
  proof (cases "c = 0x7F")
    case True
    have "\<not> c0_control 0x2421" by (simp add: c0_control_def word_sle_eq)
    with True False show ?thesis by (simp add: substitute_def)
  next
    case nd: False
    have "\<not> c0_control RuneError \<and> RuneError \<noteq> 0x7F"
      by (simp add: RuneError_def c0_control_def word_sle_eq)
    with False nd show ?thesis by (simp add: substitute_def written_def)
  qed
qed

lemma write_seq_total:
  "j < length runes \<Longrightarrow> \<exists>out. write_seq runes k j sb = Inr out"
proof (cases "k \<le> j + 1")
  case True
  assume "j < length runes"
  then show ?thesis using True by (simp add: write_seq_run)
next
  case False
  then show ?thesis by (subst write_seq.simps) simp
qed

lemma scan_seq_total: "\<exists>x. scan_seq runes i j sb = Inr x"
proof (induction runes i j sb rule: scan_seq.induct)
  case (1 runes i j sb)
  show ?case
  proof (cases "j < length runes")
    case False
    then show ?thesis by (simp add: scan_seq_end)
  next
    case True
    then obtain out where w: "write_seq runes i j sb = Inr out"
      using write_seq_total by blast
    show ?thesis
    proof (cases "terminator (runes ! j)")
      case t: True
      with True w show ?thesis by (subst scan_seq_unfold) simp
    next
      case nt: False
      show ?thesis
      proof (cases "parameter (runes ! j)")
        case False
        with True nt show ?thesis by (simp add: scan_seq_other)
      next
        case p: True
        have "\<exists>x. scan_seq runes i (j + 1) sb = Inr x"
        proof (rule "1.IH" [OF True, of "runes ! j"])
          show "rune_at runes j = Inr (runes ! j)" using True by (simp add: rune_at_def)
          show "\<not> ((0x41 \<le>s runes ! j \<and> runes ! j \<le>s 0x5A) \<or> (0x61 \<le>s runes ! j \<and> runes ! j \<le>s 0x7A))"
            using nt unfolding terminator_def .
          show "(0x30 \<le>s runes ! j \<and> runes ! j \<le>s 0x39) \<or> runes ! j = 0x3B \<or> runes ! j = 0x3F"
            using p unfolding parameter_def .
        qed
        with True p show ?thesis by (simp add: scan_seq_param)
      qed
    qed
  qed
qed

lemma loop_total: "\<exists>out. EscapePreservingANSI_loop runes k sb = Inr out"
proof (cases "k \<le> length runes")
  case True
  then show ?thesis by (simp add: loop_scanner)
next
  case False
  then show ?thesis by (subst EscapePreservingANSI_loop.simps) simp
qed

section \<open>Claims\<close>

text \<open>
  C1 (as amended). On the six code points ESC, \<open>[\<close>, \<open>b\<close>, \<open>a\<close>, \<open>!\<close>, \<open>d\<close>
  \<open>EscapePreservingANSI\<close> returns its input unchanged: \<open>b\<close> is a letter, so ESC
  \<open>[\<close> \<open>b\<close> is a well-formed run with no parameters and is copied verbatim, and
  \<open>a\<close>, \<open>!\<close>, \<open>d\<close> pass through as ordinary code points.
\<close>

theorem C1_interrupted_example_unchanged:
  "EscapePreservingANSI [0x1b, 0x5B, 0x62, 0x61, 0x21, 0x64] =
     Inr [0x1b, 0x5B, 0x62, 0x61, 0x21, 0x64]"
  by code_simp

text \<open>
  C1 as the spec states it fails: the output does not start with U+241B.
\<close>

theorem C1_counterexample:
  "EscapePreservingANSI [0x1b, 0x5B, 0x62, 0x61, 0x21, 0x64] \<noteq>
     Inr [0x241B, 0x5B, 0x62, 0x61, 0x21, 0x64]"
  by code_simp

text \<open>
  C2. Wherever the input holds a well-formed CSI run (ESC, \<open>[\<close>, parameters \<open>ps\<close>,
  each a digit, \<open>;\<close> or \<open>?\<close>, and one letter \<open>t\<close>), the iteration of the main
  loop that starts at its ESC appends the run as it is and leaves the cursor just past
  \<open>t\<close>; the output of \<open>EscapePreservingANSI\<close> is the output for what precedes the
  run, the run itself, and the output for what follows. In particular the sixteen code
  points of \<open>ESC[1;31mERROR ESC[0m\<close> come back unchanged.
\<close>

theorem C2_wellformed_run_verbatim:
  assumes "list_all parameter ps" and "terminator t"
  shows "loop_body (pre @ 0x1b # 0x5B # ps @ t # rest) (length pre) sb =
           Inr (sb @ 0x1b # 0x5B # ps @ [t], length pre + length (0x1b # 0x5B # ps @ [t]))
       \<and> (\<exists>p r. EscapePreservingANSI pre = Inr p \<and> EscapePreservingANSI rest = Inr r \<and>
              EscapePreservingANSI (pre @ 0x1b # 0x5B # ps @ t # rest) =
                Inr (p @ 0x1b # 0x5B # ps @ t # r))
       \<and> EscapePreservingANSI
            [0x1b, 0x5B, 0x31, 0x3B, 0x33, 0x31, 0x6D, 0x45, 0x52, 0x52, 0x4F, 0x52, 0x1b, 0x5B, 0x30, 0x6D] =
          Inr [0x1b, 0x5B, 0x31, 0x3B, 0x33, 0x31, 0x6D, 0x45, 0x52, 0x52, 0x4F, 0x52, 0x1b, 0x5B, 0x30, 0x6D]"
proof (intro conjI)
  show "loop_body (pre @ 0x1b # 0x5B # ps @ t # rest) (length pre) sb =
      Inr (sb @ 0x1b # 0x5B # ps @ [t], length pre + length (0x1b # 0x5B # ps @ [t]))"
    using loop_body_run [OF assms, of pre rest sb] by simp
  have "ansi_scanner (pre @ 0x1b # 0x5B # ps @ t # rest) =
      ansi_scanner pre @ 0x1b # 0x5B # ps @ t # ansi_scanner rest"
    by (simp only: ansi_scanner_append_ESC ansi_scanner_run [OF assms])
  then show "\<exists>p r. EscapePreservingANSI pre = Inr p \<and> EscapePreservingANSI rest = Inr r \<and>
      EscapePreservingANSI (pre @ 0x1b # 0x5B # ps @ t # rest) = Inr (p @ 0x1b # 0x5B # ps @ t # r)"
    by (simp add: EscapePreservingANSI_scanner)
  show "EscapePreservingANSI
      [0x1b, 0x5B, 0x31, 0x3B, 0x33, 0x31, 0x6D, 0x45, 0x52, 0x52, 0x4F, 0x52, 0x1b, 0x5B, 0x30, 0x6D] =
    Inr [0x1b, 0x5B, 0x31, 0x3B, 0x33, 0x31, 0x6D, 0x45, 0x52, 0x52, 0x4F, 0x52, 0x1b, 0x5B, 0x30, 0x6D]"
    by code_simp
qed

text \<open>C2 at the run \<open>ESC[1;31m\<close> after an \<open>x\<close> and before an \<open>E\<close>.\<close>

theorem C2_witness:
  "list_all parameter [0x31, 0x3B, 0x33, 0x31] \<and> terminator 0x6D
   \<and> loop_body [0x78, 0x1b, 0x5B, 0x31, 0x3B, 0x33, 0x31, 0x6D, 0x45] 1 [0x78] =
       Inr ([0x78, 0x1b, 0x5B, 0x31, 0x3B, 0x33, 0x31, 0x6D], 8)"
proof -
  have ps: "list_all parameter [0x31, 0x3B, 0x33, 0x31]"
    by (simp add: parameter_def word_sle_eq)
  have t: "terminator 0x6D"
    by (simp add: terminator_def word_sle_eq)
  from C2_wellformed_run_verbatim [OF ps t, of "[0x78]" "[0x45]" "[0x78]"] ps t
  show ?thesis by simp
qed

text \<open>
  C3. Where ESC \<open>[\<close> is followed by parameters \<open>ps\<close> and then by the end of the
  input or by a code point that is neither a parameter nor a letter, the iteration at the
  ESC appends U+241B alone and moves the cursor by exactly 1; in the output of
  \<open>EscapePreservingANSI\<close> the \<open>[\<close> and the parameters then follow the U+241B
  unchanged, none dropped, and the rest is scanned as it would be on its own. In
  particular \<open>x ESC [ 3 1\<close> gives \<open>x\<close>, U+241B, \<open>[\<close>, \<open>3\<close>, \<open>1\<close>.
\<close>

theorem C3_invalid_sequence_degrades:
  assumes "list_all parameter ps"
    and "rest = [] \<or> (\<not> terminator (hd rest) \<and> \<not> parameter (hd rest))"
  shows "loop_body (pre @ 0x1b # 0x5B # ps @ rest) (length pre) sb =
           Inr (sb @ [0x241B], length pre + 1)
       \<and> (\<exists>p r. EscapePreservingANSI pre = Inr p \<and> EscapePreservingANSI rest = Inr r \<and>
              EscapePreservingANSI (pre @ 0x1b # 0x5B # ps @ rest) =
                Inr (p @ 0x241B # 0x5B # ps @ r))
       \<and> EscapePreservingANSI [0x78, 0x1b, 0x5B, 0x33, 0x31] = Inr [0x78, 0x241B, 0x5B, 0x33, 0x31]"
proof (intro conjI)
  show "loop_body (pre @ 0x1b # 0x5B # ps @ rest) (length pre) sb = Inr (sb @ [0x241B], length pre + 1)"
    using assms by (rule loop_body_invalid)
  have "csi_run (0x1b # 0x5B # ps @ rest) = None"
    using assms by (rule csi_run_invalid)
  then have "ansi_scanner (0x1b # 0x5B # ps @ rest) = 0x241B # ansi_scanner (0x5B # ps @ rest)"
    by (rule ansi_scanner_ESC)
  also have "ansi_scanner (0x5B # ps @ rest) = 0x5B # ansi_scanner (ps @ rest)"
    by (rule plain_passes) (simp_all add: c0_control_def ValidRune_def word_sle_eq word_sless_alt)
  also have "ansi_scanner (ps @ rest) = ps @ ansi_scanner rest"
    using assms(1) by (rule ansi_scanner_parameters)
  finally have "ansi_scanner (pre @ 0x1b # 0x5B # ps @ rest) =
      ansi_scanner pre @ 0x241B # 0x5B # ps @ ansi_scanner rest"
    by (simp only: ansi_scanner_append_ESC)
  then show "\<exists>p r. EscapePreservingANSI pre = Inr p \<and> EscapePreservingANSI rest = Inr r \<and>
      EscapePreservingANSI (pre @ 0x1b # 0x5B # ps @ rest) = Inr (p @ 0x241B # 0x5B # ps @ r)"
    by (simp add: EscapePreservingANSI_scanner)
  show "EscapePreservingANSI [0x78, 0x1b, 0x5B, 0x33, 0x31] = Inr [0x78, 0x241B, 0x5B, 0x33, 0x31]"
    by code_simp
qed

text \<open>C3 at \<open>ESC[31\<close> interrupted by \<open>!\<close>, and at \<open>ESC[31\<close> cut off by the end.\<close>

theorem C3_witness:
  "list_all parameter [0x33, 0x31] \<and> \<not> terminator 0x21 \<and> \<not> parameter 0x21
   \<and> loop_body [0x78, 0x1b, 0x5B, 0x33, 0x31, 0x21, 0x6D] 1 [0x78] = Inr ([0x78, 0x241B], 2)
   \<and> loop_body [0x78, 0x1b, 0x5B, 0x33, 0x31] 1 [0x78] = Inr ([0x78, 0x241B], 2)"
proof -
  have ps: "list_all parameter [0x33, 0x31]"
    by (simp add: parameter_def word_sle_eq)
  have c: "\<not> terminator 0x21" "\<not> parameter 0x21"
    by (simp_all add: terminator_def parameter_def word_sle_eq)
  have r1: "[0x21, 0x6D] = [] \<or> (\<not> terminator (hd [0x21, 0x6D]) \<and> \<not> parameter (hd [0x21, 0x6D]))"
    using c by simp
  have r2: "([]::rune list) = [] \<or> (\<not> terminator (hd []) \<and> \<not> parameter (hd []))"
    by simp
  from C3_invalid_sequence_degrades [OF ps r1, of "[0x78]" "[0x78]"]
    C3_invalid_sequence_degrades [OF ps r2, of "[0x78]" "[0x78]"] ps c
  show ?thesis by simp
qed

text \<open>
  C4. On a sequence of Unicode code points \<open>Escape\<close> is the Substituter applied to
  each code point in order: 0x00..0x1F become U+2400 plus the value, 0x7F becomes U+2421,
  every other code point stays; so a sequence with no code point in 0x00..0x1F and no
  0x7F comes back unchanged. (What a Go string decodes to is always a valid code point.)
\<close>

theorem C4_Escape_substitutes:
  assumes "list_all ValidRune s"
  shows "Escape s = map substitute s
       \<and> (list_all (\<lambda>c. \<not> c0_control c \<and> c \<noteq> 0x7F) s \<longrightarrow> Escape s = s)"
proof -
  have w: "written (substitute c) = substitute c" if "ValidRune c" for c
    using that by (simp add: substitute_def written_picture) (simp add: written_def)
  have "map (\<lambda>r. written (substitute r)) s = map substitute s"
    using assms by (induction s) (simp_all add: w)
  then have m: "Escape s = map substitute s"
    by (simp add: Escape_map)
  have "list_all (\<lambda>c. \<not> c0_control c \<and> c \<noteq> 0x7F) s \<longrightarrow> map substitute s = s"
    by (induction s) (simp_all add: substitute_def)
  with m show ?thesis by simp
qed

text \<open>C4 at NUL, US, DEL, \<open>A\<close>, U+1F600, and at a sequence without controls.\<close>

theorem C4_witness:
  "list_all ValidRune [0x00, 0x1F, 0x7F, 0x41, 0x1F600]
   \<and> Escape [0x00, 0x1F, 0x7F, 0x41, 0x1F600] = [0x2400, 0x241F, 0x2421, 0x41, 0x1F600]
   \<and> list_all ValidRune [0x41, 0x20, 0x1F600]
   \<and> list_all (\<lambda>c. \<not> c0_control c \<and> c \<noteq> 0x7F) [0x41, 0x20, 0x1F600]
   \<and> Escape [0x41, 0x20, 0x1F600] = [0x41, 0x20, 0x1F600]"
proof -
  have v1: "list_all ValidRune [0x00, 0x1F, 0x7F, 0x41, 0x1F600]"
    by (simp add: ValidRune_def word_sle_eq word_sless_alt)
  have v2: "list_all ValidRune [0x41, 0x20, 0x1F600]"
    by (simp add: ValidRune_def word_sle_eq word_sless_alt)
  have n2: "list_all (\<lambda>c. \<not> c0_control c \<and> c \<noteq> 0x7F) [0x41, 0x20, 0x1F600]"
    by (simp add: c0_control_def word_sle_eq)
  have "map substitute [0x00, 0x1F, 0x7F, 0x41, 0x1F600] = [0x2400, 0x241F, 0x2421, 0x41, 0x1F600]"
    by (simp add: substitute_def c0_control_def word_sle_eq)
  with C4_Escape_substitutes [OF v1] C4_Escape_substitutes [OF v2] v1 v2 n2
  show ?thesis by (simp add: substitute_def c0_control_def word_sle_eq)
qed

text \<open>
  C5. The output of \<open>Escape\<close> has as many code points as its input, and so has the
  output of \<open>EscapePreservingANSI\<close>; every step of either loop writes exactly as many
  code points as it consumes.
\<close>

theorem C5_code_point_count:
  "length (Escape s) = length s
   \<and> length (Escape_range acc s) = length acc + length s
   \<and> (\<exists>out. EscapePreservingANSI s = Inr out \<and> length out = length s)
   \<and> (i < length runes \<longrightarrow>
        (\<exists>sb' i'. loop_body runes i sb = Inr (sb', i') \<and> i < i' \<and>
           length sb' = length sb + (i' - i)))"
proof (intro conjI impI)
  show "length (Escape s) = length s" by (simp add: Escape_map)
  show "length (Escape_range acc s) = length acc + length s" by (simp add: Escape_range_map)
  show "\<exists>out. EscapePreservingANSI s = Inr out \<and> length out = length s"
    by (simp add: EscapePreservingANSI_scanner ansi_scanner_length)
  assume "i < length runes"
  then show "\<exists>sb' i'. loop_body runes i sb = Inr (sb', i') \<and> i < i' \<and>
      length sb' = length sb + (i' - i)"
    using csi_run_length(1) [of "runes ! i" "drop (Suc i) runes"]
    by (cases "csi_run (drop i runes)") (auto simp: loop_body_step Cons_nth_drop_Suc)
qed

text \<open>C5 at the iteration that copies \<open>ESC[0m\<close>: four written, four consumed.\<close>

theorem C5_witness:
  "(2::nat) < length [0x41, 0x01, 0x1b, 0x5B, 0x30, 0x6D, 0x7F :: rune]
   \<and> loop_body [0x41, 0x01, 0x1b, 0x5B, 0x30, 0x6D, 0x7F] 2 [0x41, 0x2401] =
       Inr ([0x41, 0x2401, 0x1b, 0x5B, 0x30, 0x6D], 6)
   \<and> length [0x41, 0x2401, 0x1b, 0x5B, 0x30, 0x6D] = length [0x41, 0x2401::rune] + (6 - 2)"
proof -
  have b: "loop_body [0x41, 0x01, 0x1b, 0x5B, 0x30, 0x6D, 0x7F] 2 [0x41, 0x2401] =
      Inr ([0x41, 0x2401, 0x1b, 0x5B, 0x30, 0x6D], 6)"
    by code_simp
  from C5_code_point_count [where i = 2 and runes = "[0x41, 0x01, 0x1b, 0x5B, 0x30, 0x6D, 0x7F]"
      and sb = "[0x41, 0x2401]" and s = "[]"] b
  show ?thesis by simp
qed

text \<open>
  C6. At an ESC that is the last code point or is followed by anything but \<open>[\<close>, no
  sequence start is detected: the ordinary path appends U+241B and moves the cursor by 1,
  and the output of \<open>EscapePreservingANSI\<close> is the output for what precedes, U+241B,
  and the output for what follows. In particular \<open>a ESC b\<close> gives \<open>a\<close>, U+241B,
  \<open>b\<close>.
\<close>

theorem C6_lone_ESC:
  assumes "rest = [] \<or> hd rest \<noteq> 0x5B"
  shows "sequence_start (pre @ 0x1b # rest) (length pre) 0x1b = Inr False
       \<and> loop_body (pre @ 0x1b # rest) (length pre) sb = Inr (sb @ [0x241B], length pre + 1)
       \<and> (\<exists>p r. EscapePreservingANSI pre = Inr p \<and> EscapePreservingANSI rest = Inr r \<and>
              EscapePreservingANSI (pre @ 0x1b # rest) = Inr (p @ 0x241B # r))
       \<and> EscapePreservingANSI [0x61, 0x1b, 0x62] = Inr [0x61, 0x241B, 0x62]"
proof (intro conjI)
  from assms have ns: "\<not> (0x1b = (0x1b::rune) \<and> rest \<noteq> [] \<and> hd rest = 0x5B)"
    by auto
  show "sequence_start (pre @ 0x1b # rest) (length pre) 0x1b = Inr False"
    using ns by (simp add: sequence_start_append)
  have "written (substitute 0x1b) = 0x241B"
    by (simp add: substitute_ESC)
  then show "loop_body (pre @ 0x1b # rest) (length pre) sb = Inr (sb @ [0x241B], length pre + 1)"
    using loop_body_ordinary [OF ns, of pre sb] by simp
  have "csi_run (0x1b # rest) = None"
    using ns by (rule csi_run_ordinary)
  then have "ansi_scanner (pre @ 0x1b # rest) = ansi_scanner pre @ 0x241B # ansi_scanner rest"
    by (simp only: ansi_scanner_append_ESC ansi_scanner_ESC)
  then show "\<exists>p r. EscapePreservingANSI pre = Inr p \<and> EscapePreservingANSI rest = Inr r \<and>
      EscapePreservingANSI (pre @ 0x1b # rest) = Inr (p @ 0x241B # r)"
    by (simp add: EscapePreservingANSI_scanner)
  show "EscapePreservingANSI [0x61, 0x1b, 0x62] = Inr [0x61, 0x241B, 0x62]"
    by code_simp
qed

text \<open>C6 at an ESC followed by \<open>b\<close>, and at an ESC at the end.\<close>

theorem C6_witness:
  "hd [0x62::rune] \<noteq> 0x5B
   \<and> loop_body [0x61, 0x1b, 0x62] 1 [0x61] = Inr ([0x61, 0x241B], 2)
   \<and> loop_body [0x61, 0x1b] 1 [0x61] = Inr ([0x61, 0x241B], 2)"
proof -
  have r1: "[0x62::rune] = [] \<or> hd [0x62::rune] \<noteq> 0x5B" by simp
  have r2: "([]::rune list) = [] \<or> hd ([]::rune list) \<noteq> 0x5B" by simp
  from C6_lone_ESC [OF r1, of "[0x61]" "[0x61]"] C6_lone_ESC [OF r2, of "[0x61]" "[0x61]"]
  show ?thesis by simp
qed

text \<open>
  C7. \<open>EscapePreservingANSI\<close> terminates: its main loop is a total function by
  well-founded recursion on \<open>len(runes) - i\<close> (the termination proof above), and it
  returns from every cursor. Each iteration moves the cursor forward and not past the
  end: by the length of the run, at least 3, where a well-formed run starts, and by
  exactly 1 everywhere else.
\<close>

theorem C7_cursor_advances:
  assumes "i < length runes"
  shows "(\<exists>sb' i'. loop_body runes i sb = Inr (sb', i') \<and> i < i' \<and> i' \<le> length runes \<and>
            length runes - i' < length runes - i \<and>
            (case csi_run (drop i runes) of
               Some run \<Rightarrow> i' = i + length run \<and> 3 \<le> length run
             | None \<Rightarrow> i' = i + 1))
       \<and> (\<forall>k. \<exists>out. EscapePreservingANSI_loop runes k sb = Inr out)"
proof
  have dr: "drop i runes = runes ! i # drop (Suc i) runes"
    using assms by (simp add: Cons_nth_drop_Suc)
  show "\<exists>sb' i'. loop_body runes i sb = Inr (sb', i') \<and> i < i' \<and> i' \<le> length runes \<and>
            length runes - i' < length runes - i \<and>
            (case csi_run (drop i runes) of
               Some run \<Rightarrow> i' = i + length run \<and> 3 \<le> length run
             | None \<Rightarrow> i' = i + 1)"
  proof (cases "csi_run (drop i runes)")
    case None
    with assms show ?thesis by (simp add: loop_body_step)
  next
    case (Some run)
    then have c: "csi_run (runes ! i # drop (Suc i) runes) = Some run" by (simp add: dr)
    from csi_run_length(1,2) [OF c] assms
    have l3: "3 \<le> length run" and le: "i + length run \<le> length runes"
      by simp_all
    from l3 have ne: "run \<noteq> []" by auto
    from l3 le ne assms Some show ?thesis
      by (simp add: loop_body_step)
  qed
  show "\<forall>k. \<exists>out. EscapePreservingANSI_loop runes k sb = Inr out"
    by (simp add: loop_total)
qed

text \<open>C7 on \<open>x ESC[31m ESC[3\<close>: the ordinary, the well-formed and the invalid path.\<close>

theorem C7_witness:
  "(1::nat) < length [0x78, 0x1b, 0x5B, 0x33, 0x31, 0x6D, 0x1b, 0x5B, 0x33 :: rune]
   \<and> loop_body [0x78, 0x1b, 0x5B, 0x33, 0x31, 0x6D, 0x1b, 0x5B, 0x33] 0 [] = Inr ([0x78], 1)
   \<and> loop_body [0x78, 0x1b, 0x5B, 0x33, 0x31, 0x6D, 0x1b, 0x5B, 0x33] 1 [] =
        Inr ([0x1b, 0x5B, 0x33, 0x31, 0x6D], 6)
   \<and> loop_body [0x78, 0x1b, 0x5B, 0x33, 0x31, 0x6D, 0x1b, 0x5B, 0x33] 6 [] = Inr ([0x241B], 7)
   \<and> (\<exists>out. EscapePreservingANSI_loop [0x78, 0x1b, 0x5B, 0x33, 0x31, 0x6D, 0x1b, 0x5B, 0x33] 1 [] = Inr out)"
proof -
  let ?runes = "[0x78, 0x1b, 0x5B, 0x33, 0x31, 0x6D, 0x1b, 0x5B, 0x33] :: rune list"
  have l: "(1::nat) < length ?runes" by simp
  have b: "loop_body ?runes 0 [] = Inr ([0x78], 1)"
    "loop_body ?runes 1 [] = Inr ([0x1b, 0x5B, 0x33, 0x31, 0x6D], 6)"
    "loop_body ?runes 6 [] = Inr ([0x241B], 7)"
    by code_simp+
  from C7_cursor_advances [OF l, of "[]"] l b show ?thesis by blast
qed

text \<open>
  C8. \<open>EscapePreservingANSI\<close> returns a result on every sequence of code points, the
  empty and the truncated ones included: no index is ever out of range. The tests that
  guard the indexings never fail, the inner loop never fails, an iteration of the main
  loop never fails under the loop's own guard, and the one addition on runes,
  \<open>'\u2400' + r\<close>, does not wrap where it is made. \<open>Escape\<close> indexes nothing (its
  model has no error to return) and gives a result of the input's length; both give the
  empty output on the empty input.
\<close>

theorem C8_no_failure:
  "(\<exists>out. EscapePreservingANSI content = Inr out)
   \<and> EscapePreservingANSI content \<noteq> Inl IndexOutOfRange
   \<and> (\<exists>b. sequence_start runes i r = Inr b)
   \<and> (\<exists>x. scan_seq runes i j sb = Inr x)
   \<and> (\<exists>b. no_terminator runes j = Inr b)
   \<and> (i < length runes \<longrightarrow> (\<exists>x. loop_body runes i sb = Inr x))
   \<and> (c0_control c \<longrightarrow> sint (0x2400 + c) = 0x2400 + sint c)
   \<and> EscapePreservingANSI [] = Inr []
   \<and> Escape [] = []
   \<and> length (Escape content) = length content"
proof (intro conjI impI)
  show "\<exists>out. EscapePreservingANSI content = Inr out"
    and "EscapePreservingANSI content \<noteq> Inl IndexOutOfRange"
    and "EscapePreservingANSI [] = Inr []"
    by (simp_all add: EscapePreservingANSI_scanner)
  show "\<exists>b. sequence_start runes i r = Inr b"
    by (auto simp: sequence_start_def rune_at_def)
  show "\<exists>x. scan_seq runes i j sb = Inr x"
    by (rule scan_seq_total)
  show "\<exists>b. no_terminator runes j = Inr b"
    by (auto simp: no_terminator_def rune_at_def)
  show "Escape [] = []" and "length (Escape content) = length content"
    by (simp_all add: Escape_map)
  show "\<exists>x. loop_body runes i sb = Inr x" if "i < length runes"
    using that by (simp add: loop_body_step)
  show "sint (0x2400 + c) = 0x2400 + sint c" if "c0_control c"
    using that by (simp add: c0_control_def word_sle_eq sint_picture)
qed

text \<open>C8 at the last code point of the truncated \<open>ESC[3\<close>, and at the control US.\<close>

theorem C8_witness:
  "(3::nat) < length [0x78, 0x1b, 0x5B, 0x33 :: rune]
   \<and> loop_body [0x78, 0x1b, 0x5B, 0x33] 3 [0x78, 0x241B, 0x5B] = Inr ([0x78, 0x241B, 0x5B, 0x33], 4)
   \<and> EscapePreservingANSI [0x78, 0x1b, 0x5B, 0x33] = Inr [0x78, 0x241B, 0x5B, 0x33]
   \<and> c0_control 0x1F \<and> sint (0x2400 + 0x1F :: rune) = 0x2400 + sint (0x1F :: rune)"
proof -
  have l: "(3::nat) < length [0x78, 0x1b, 0x5B, 0x33 :: rune]"
    and c: "c0_control 0x1F"
    by (simp_all add: c0_control_def word_sle_eq)
  have b: "loop_body [0x78, 0x1b, 0x5B, 0x33] 3 [0x78, 0x241B, 0x5B] = Inr ([0x78, 0x241B, 0x5B, 0x33], 4)"
    "EscapePreservingANSI [0x78, 0x1b, 0x5B, 0x33] = Inr [0x78, 0x241B, 0x5B, 0x33]"
    by code_simp+
  from C8_no_failure [where i = 3 and runes = "[0x78, 0x1b, 0x5B, 0x33]"
      and sb = "[0x78, 0x241B, 0x5B]" and content = "[0x78, 0x1b, 0x5B, 0x33]" and c = "0x1F"] l c b
  show ?thesis by blast
qed

text \<open>
  C9. No code point of the output of \<open>Escape\<close> lies in 0x00..0x1F and none is 0x7F.
\<close>

theorem C9_Escape_output_has_no_control:
  "\<forall>c \<in> set (Escape s). \<not> c0_control c \<and> c \<noteq> 0x7F"
  by (auto simp: Escape_map written_substitute_not_control)

text \<open>C9 at the picture of SOH in the output for SOH, DEL, \<open>A\<close>.\<close>

theorem C9_witness:
  "0x2401 \<in> set (Escape [0x01, 0x7F, 0x41]) \<and> \<not> c0_control 0x2401 \<and> (0x2401::rune) \<noteq> 0x7F"
proof -
  have "Escape [0x01, 0x7F, 0x41] = [0x2401, 0x2421, 0x41]"
    by code_simp
  then have "0x2401 \<in> set (Escape [0x01, 0x7F, 0x41])" by simp
  with C9_Escape_output_has_no_control [of "[0x01, 0x7F, 0x41]"] show ?thesis by blast
qed

text \<open>
  C10. On an input without ESC, \<open>EscapePreservingANSI\<close> returns what \<open>Escape\<close>
  returns.
\<close>

theorem C10_agree_without_ESC:
  assumes "list_all (\<lambda>c. c \<noteq> 0x1b) s"
  shows "EscapePreservingANSI s = Inr (Escape s)"
  using assms by (simp add: EscapePreservingANSI_scanner Escape_map ansi_scanner_no_ESC)

text \<open>C10 at \<open>a\<close>, SOH, \<open>[\<close>, \<open>3\<close>, \<open>m\<close>, DEL.\<close>

theorem C10_witness:
  "list_all (\<lambda>c. c \<noteq> 0x1b) [0x61, 0x01, 0x5B, 0x33, 0x6D, 0x7F :: rune]
   \<and> EscapePreservingANSI [0x61, 0x01, 0x5B, 0x33, 0x6D, 0x7F] = Inr [0x61, 0x2401, 0x5B, 0x33, 0x6D, 0x2421]
   \<and> Escape [0x61, 0x01, 0x5B, 0x33, 0x6D, 0x7F] = [0x61, 0x2401, 0x5B, 0x33, 0x6D, 0x2421]"
proof -
  have n: "list_all (\<lambda>c. c \<noteq> 0x1b) [0x61, 0x01, 0x5B, 0x33, 0x6D, 0x7F :: rune]" by simp
  have e: "Escape [0x61, 0x01, 0x5B, 0x33, 0x6D, 0x7F] = [0x61, 0x2401, 0x5B, 0x33, 0x6D, 0x2421]"
    by code_simp
  from C10_agree_without_ESC [OF n] n e show ?thesis by simp
qed

end
